theory Spec2Isabelle
  imports Main
begin

section \<open>The object store of sigslot.h\<close>

text \<open>
  The header defines three kinds of objects that point at each other:
  \<^item> a \<^verbatim>\<open>_connection\<close>, allocated with \<^verbatim>\<open>new\<close>, holding \<^verbatim>\<open>m_pobject\<close> (the receiver) and
    \<^verbatim>\<open>m_pmemfun\<close> (the member function to call on it); both fields are set by the
    constructor and never assigned again;
  \<^item> a \<^verbatim>\<open>_signal\<close>, holding \<^verbatim>\<open>m_connected_slots\<close>, a \<^verbatim>\<open>std::list\<close> of pointers to
    connections;
  \<^item> a \<^verbatim>\<open>has_slots\<close>, holding \<^verbatim>\<open>m_senders\<close>, a \<^verbatim>\<open>std::set\<close> of pointers to signals.

  Objects are identified by their addresses. A pointer to a connection is modelled by
  the address together with the two immutable fields of the object it points to, so
  that comparing two list elements compares the pointers. The store maps the address of
  a signal to its list and the address of a receiver to its set; \<^verbatim>\<open>next_conn\<close> is the
  allocator of connection objects, which hands out an address it has never handed out
  before. Every pointer given to an operation is taken to refer to a constructed
  object; the store keeps no record of deallocation.

  A handler is arbitrary user code. The model records each invocation (receiver, member
  function, arguments) in \<^verbatim>\<open>invoked\<close>, in the order of the calls, and takes a handler to
  leave the signals' lists and the receivers' sets alone.

  The lock policy is \<^verbatim>\<open>single_threaded\<close>: \<^verbatim>\<open>lock\<close> and \<^verbatim>\<open>unlock\<close> do nothing, and every
  operation runs to its end before the next one starts.
\<close>

type_synonym signal_ptr = nat
type_synonym slots_ptr = nat
type_synonym memfun = nat

record connection =
  conn_addr :: nat
  m_pobject :: slots_ptr
  m_pmemfun :: memfun

record 'a world =
  m_connected_slots :: "signal_ptr \<Rightarrow> connection list"
  m_senders :: "slots_ptr \<Rightarrow> signal_ptr list"
  next_conn :: nat
  invoked :: "(slots_ptr \<times> memfun \<times> 'a) list"

definition no_objects :: "'a world" where
  "no_objects =
     \<lparr>m_connected_slots = (\<lambda>_. []), m_senders = (\<lambda>_. []), next_conn = 0, invoked = []\<rparr>"

subsection \<open>\<^verbatim>\<open>std::set\<close> of signal pointers\<close>

text \<open>
  A \<^verbatim>\<open>std::set\<close> of pointers keeps its elements unique and is traversed in ascending
  order of address: it is modelled by a strictly ascending list.
\<close>

definition set_insert :: "nat \<Rightarrow> nat list \<Rightarrow> nat list" where
  "set_insert x xs = (if x \<in> set xs then xs else insort x xs)"

definition set_erase :: "nat \<Rightarrow> nat list \<Rightarrow> nat list" where
  "set_erase x xs = removeAll x xs"

section \<open>\<^verbatim>\<open>_connection\<close>\<close>

definition new_connection :: "slots_ptr \<Rightarrow> memfun \<Rightarrow> 'a world \<Rightarrow> connection \<times> 'a world" where
  "new_connection pobject pmemfun w =
     (\<lparr>conn_addr = next_conn w, m_pobject = pobject, m_pmemfun = pmemfun\<rparr>,
      w\<lparr>next_conn := Suc (next_conn w)\<rparr>)"

definition clone :: "connection \<Rightarrow> 'a world \<Rightarrow> connection \<times> 'a world" where
  "clone c w = new_connection (m_pobject c) (m_pmemfun c) w"

definition duplicate :: "connection \<Rightarrow> slots_ptr \<Rightarrow> 'a world \<Rightarrow> connection \<times> 'a world" where
  "duplicate c pnewdest w = new_connection pnewdest (m_pmemfun c) w"

definition connection_emit :: "connection \<Rightarrow> 'a \<Rightarrow> 'a world \<Rightarrow> 'a world" where
  "connection_emit c args w = w\<lparr>invoked := invoked w @ [(m_pobject c, m_pmemfun c, args)]\<rparr>"

definition getdest :: "connection \<Rightarrow> slots_ptr" where
  "getdest c = m_pobject c"

section \<open>\<^verbatim>\<open>has_slots\<close>: registration of senders\<close>

definition has_slots_ctor :: "slots_ptr \<Rightarrow> 'a world \<Rightarrow> 'a world" where
  "has_slots_ctor this w = w\<lparr>m_senders := (m_senders w)(this := [])\<rparr>"

definition signal_connect :: "slots_ptr \<Rightarrow> signal_ptr \<Rightarrow> 'a world \<Rightarrow> 'a world" where
  "signal_connect this sender w =
     w\<lparr>m_senders := (m_senders w)(this := set_insert sender (m_senders w this))\<rparr>"

definition signal_disconnect :: "slots_ptr \<Rightarrow> signal_ptr \<Rightarrow> 'a world \<Rightarrow> 'a world" where
  "signal_disconnect this sender w =
     w\<lparr>m_senders := (m_senders w)(this := set_erase sender (m_senders w this))\<rparr>"

section \<open>\<^verbatim>\<open>_signal\<close> and \<^verbatim>\<open>signal\<close>\<close>

definition signal_ctor :: "signal_ptr \<Rightarrow> 'a world \<Rightarrow> 'a world" where
  "signal_ctor this w = w\<lparr>m_connected_slots := (m_connected_slots w)(this := [])\<rparr>"

definition push_back :: "signal_ptr \<Rightarrow> connection \<Rightarrow> 'a world \<Rightarrow> 'a world" where
  "push_back this c w =
     w\<lparr>m_connected_slots := (m_connected_slots w)(this := m_connected_slots w this @ [c])\<rparr>"

text \<open>
  \<^verbatim>\<open>signal::connect\<close>: allocate the connection, append it, register this signal with the
  receiver.
\<close>

definition connect :: "signal_ptr \<Rightarrow> slots_ptr \<Rightarrow> memfun \<Rightarrow> 'a world \<Rightarrow> 'a world" where
  "connect this pclass pmemfun w =
     (case new_connection pclass pmemfun w of
        (conn, w1) \<Rightarrow> signal_connect pclass this (push_back this conn w1))"

text \<open>
  \<^verbatim>\<open>signal::emit\<close> walks the list and calls each connection; \<^verbatim>\<open>operator()\<close> forwards
  to it.
\<close>

definition emit :: "signal_ptr \<Rightarrow> 'a \<Rightarrow> 'a world \<Rightarrow> 'a world" where
  "emit this args w = fold (\<lambda>slot. connection_emit slot args) (m_connected_slots w this) w"

definition call_operator :: "signal_ptr \<Rightarrow> 'a \<Rightarrow> 'a world \<Rightarrow> 'a world" where
  "call_operator this args w = emit this args w"

text \<open>
  \<^verbatim>\<open>_signal::disconnect\<close> visits the list in order. At the first connection whose
  receiver is \<^verbatim>\<open>pclass\<close> it deletes the connection, calls \<^verbatim>\<open>remove(slot)\<close>, which erases
  every list element equal to that pointer, unregisters this signal from the receiver,
  and leaves the loop.
\<close>

fun disconnect_loop :: "signal_ptr \<Rightarrow> slots_ptr \<Rightarrow> connection list \<Rightarrow> 'a world \<Rightarrow> 'a world" where
  "disconnect_loop this pclass [] w = w"
| "disconnect_loop this pclass (slot # rest) w =
     (if getdest slot = pclass
      then signal_disconnect pclass this
             (w\<lparr>m_connected_slots :=
                  (m_connected_slots w)(this := removeAll slot (m_connected_slots w this))\<rparr>)
      else disconnect_loop this pclass rest w)"

definition disconnect :: "signal_ptr \<Rightarrow> slots_ptr \<Rightarrow> 'a world \<Rightarrow> 'a world" where
  "disconnect this pclass w = disconnect_loop this pclass (m_connected_slots w this) w"

text \<open>
  \<^verbatim>\<open>_signal::disconnect_all\<close> unregisters this signal from the receiver of every
  connection, deletes the connections and empties the list. The destructor calls it.
\<close>

definition disconnect_all :: "signal_ptr \<Rightarrow> 'a world \<Rightarrow> 'a world" where
  "disconnect_all this w =
     (let w1 = fold (\<lambda>slot. signal_disconnect (getdest slot) this) (m_connected_slots w this) w
      in w1\<lparr>m_connected_slots := (m_connected_slots w1)(this := [])\<rparr>)"

definition signal_dtor :: "signal_ptr \<Rightarrow> 'a world \<Rightarrow> 'a world" where
  "signal_dtor this w = disconnect_all this w"

text \<open>
  \<^verbatim>\<open>_signal::slot_disconnect\<close> runs an iterator \<^verbatim>\<open>it\<close> from \<^verbatim>\<open>begin()\<close> to \<^verbatim>\<open>end()\<close>, and the
  loop header advances it with \<^verbatim>\<open>++it\<close>. On a connection whose receiver is \<^verbatim>\<open>pslot\<close> the
  body calls \<^verbatim>\<open>m_connected_slots.erase(it)\<close> and drops the iterator that \<^verbatim>\<open>erase\<close> returns.
  \<^verbatim>\<open>std::list::erase\<close> invalidates the iterator it is given, so the \<^verbatim>\<open>++it\<close> that follows
  advances an invalidated iterator: the C++ standard gives this no meaning, and the
  model returns \<^verbatim>\<open>Invalidated_iterator\<close> there. The second argument of the loop is the part
  of the list already passed, the third the part from \<^verbatim>\<open>it\<close> on.
\<close>

datatype error = Invalidated_iterator

fun slot_disconnect_loop ::
  "slots_ptr \<Rightarrow> connection list \<Rightarrow> connection list \<Rightarrow> error + connection list" where
  "slot_disconnect_loop pslot passed [] = Inr passed"
| "slot_disconnect_loop pslot passed (c # rest) =
     (if getdest c = pslot
      then Inl Invalidated_iterator
      else slot_disconnect_loop pslot (passed @ [c]) rest)"

definition slot_disconnect :: "signal_ptr \<Rightarrow> slots_ptr \<Rightarrow> 'a world \<Rightarrow> error + 'a world" where
  "slot_disconnect this pslot w =
     (case slot_disconnect_loop pslot [] (m_connected_slots w this) of
        Inl e \<Rightarrow> Inl e
      | Inr cs \<Rightarrow> Inr (w\<lparr>m_connected_slots := (m_connected_slots w)(this := cs)\<rparr>))"

text \<open>
  \<^verbatim>\<open>_signal::slot_duplicate\<close> is a range-based \<^verbatim>\<open>for\<close> over \<^verbatim>\<open>m_connected_slots\<close> whose body
  appends to the same list. The \<^verbatim>\<open>end()\<close> of a \<^verbatim>\<open>std::list\<close> is its sentinel and
  \<^verbatim>\<open>push_back\<close> links the new node before it, so the traversal goes on into the nodes
  appended during the loop. The loop is a walk by position over the current list; it
  need not end, and \<^verbatim>\<open>None\<close> is the run that does not return.
\<close>

partial_function (option) slot_duplicate_loop ::
  "signal_ptr \<Rightarrow> slots_ptr \<Rightarrow> slots_ptr \<Rightarrow> nat \<Rightarrow> 'a world \<Rightarrow> 'a world option" where
  "slot_duplicate_loop this oldtarget newtarget i w =
     (if i < length (m_connected_slots w this)
      then (if getdest (m_connected_slots w this ! i) = oldtarget
            then (case duplicate (m_connected_slots w this ! i) newtarget w of
                    (c, w1) \<Rightarrow> slot_duplicate_loop this oldtarget newtarget (Suc i) (push_back this c w1))
            else slot_duplicate_loop this oldtarget newtarget (Suc i) w)
      else Some w)"

definition slot_duplicate :: "signal_ptr \<Rightarrow> slots_ptr \<Rightarrow> slots_ptr \<Rightarrow> 'a world \<Rightarrow> 'a world option" where
  "slot_duplicate this oldtarget newtarget w = slot_duplicate_loop this oldtarget newtarget 0 w"

text \<open>
  The copy constructor \<^verbatim>\<open>_signal(const _signal& s)\<close> names only its base class in the
  initialiser list, so the new object's \<^verbatim>\<open>m_connected_slots\<close> starts empty. Its loop is
  \<^verbatim>\<open>for(auto slot: m_connected_slots)\<close>: it ranges over the list of the object under
  construction, not over \<^verbatim>\<open>s.m_connected_slots\<close>, and the argument \<^verbatim>\<open>s\<close> is not read.
  The body registers with the receiver and appends a clone to the list being walked.
  \<^verbatim>\<open>signal(const signal& s)\<close> only calls this constructor.
\<close>

partial_function (option) signal_copy_loop ::
  "signal_ptr \<Rightarrow> nat \<Rightarrow> 'a world \<Rightarrow> 'a world option" where
  "signal_copy_loop this i w =
     (if i < length (m_connected_slots w this)
      then (case clone (m_connected_slots w this ! i)
                   (signal_connect (getdest (m_connected_slots w this ! i)) this w) of
              (c, w1) \<Rightarrow> signal_copy_loop this (Suc i) (push_back this c w1))
      else Some w)"

definition signal_copy :: "signal_ptr \<Rightarrow> signal_ptr \<Rightarrow> 'a world \<Rightarrow> 'a world option" where
  "signal_copy s this w = signal_copy_loop this 0 (signal_ctor this w)"

section \<open>\<^verbatim>\<open>has_slots\<close>: copy and teardown\<close>

text \<open>
  The copy constructor \<^verbatim>\<open>has_slots(const has_slots& hs)\<close> starts with an empty set and,
  for every sender of \<^verbatim>\<open>hs\<close> in ascending order, asks the sender to duplicate its
  connections to \<^verbatim>\<open>hs\<close> and inserts the sender into the new set.
\<close>

fun has_slots_copy_loop ::
  "signal_ptr list \<Rightarrow> slots_ptr \<Rightarrow> slots_ptr \<Rightarrow> 'a world \<Rightarrow> 'a world option" where
  "has_slots_copy_loop [] hs this w = Some w"
| "has_slots_copy_loop (sender # rest) hs this w =
     (case slot_duplicate sender hs this w of
        None \<Rightarrow> None
      | Some w1 \<Rightarrow>
          has_slots_copy_loop rest hs this
            (w1\<lparr>m_senders := (m_senders w1)(this := set_insert sender (m_senders w1 this))\<rparr>))"

definition has_slots_copy :: "slots_ptr \<Rightarrow> slots_ptr \<Rightarrow> 'a world \<Rightarrow> 'a world option" where
  "has_slots_copy hs this w =
     (let w0 = has_slots_ctor this w in has_slots_copy_loop (m_senders w0 hs) hs this w0)"

text \<open>
  \<^verbatim>\<open>has_slots::disconnect_all\<close> calls \<^verbatim>\<open>slot_disconnect(this)\<close> on every sender and then
  empties the set. The destructor calls it.
\<close>

fun has_slots_disconnect_all_loop ::
  "slots_ptr \<Rightarrow> signal_ptr list \<Rightarrow> 'a world \<Rightarrow> error + 'a world" where
  "has_slots_disconnect_all_loop this [] w = Inr w"
| "has_slots_disconnect_all_loop this (sender # rest) w =
     (case slot_disconnect sender this w of
        Inl e \<Rightarrow> Inl e
      | Inr w1 \<Rightarrow> has_slots_disconnect_all_loop this rest w1)"

definition has_slots_disconnect_all :: "slots_ptr \<Rightarrow> 'a world \<Rightarrow> error + 'a world" where
  "has_slots_disconnect_all this w =
     (case has_slots_disconnect_all_loop this (m_senders w this) w of
        Inl e \<Rightarrow> Inl e
      | Inr w1 \<Rightarrow> Inr (w1\<lparr>m_senders := (m_senders w1)(this := [])\<rparr>))"

definition has_slots_dtor :: "slots_ptr \<Rightarrow> 'a world \<Rightarrow> error + 'a world" where
  "has_slots_dtor this w = has_slots_disconnect_all this w"

section \<open>The consistency of the two directions\<close>

text \<open>
  A signal is among the senders of a receiver exactly when it holds a connection to
  that receiver.
\<close>

definition consistent :: "'a world \<Rightarrow> bool" where
  "consistent w =
     (\<forall>r s. (s \<in> set (m_senders w r)) = (\<exists>c \<in> set (m_connected_slots w s). getdest c = r))"

text \<open>
  The duplicates that \<^verbatim>\<open>slot_duplicate\<close> is to append for a list of connections: one for
  each connection to \<^verbatim>\<open>oldtarget\<close>, in order, with the same member function, the receiver
  \<^verbatim>\<open>newtarget\<close>, and the addresses the allocator hands out from \<^verbatim>\<open>n\<close> on.
\<close>

fun duplicates :: "slots_ptr \<Rightarrow> slots_ptr \<Rightarrow> nat \<Rightarrow> connection list \<Rightarrow> connection list" where
  "duplicates oldtarget newtarget n [] = []"
| "duplicates oldtarget newtarget n (c # cs) =
     (if getdest c = oldtarget
      then \<lparr>conn_addr = n, m_pobject = newtarget, m_pmemfun = m_pmemfun c\<rparr>
             # duplicates oldtarget newtarget (Suc n) cs
      else duplicates oldtarget newtarget n cs)"

text \<open>
  The store after the connections \<^verbatim>\<open>ds\<close> have been allocated one after the other and
  appended to the list of the signal \<^verbatim>\<open>this\<close>.
\<close>

definition appended :: "signal_ptr \<Rightarrow> connection list \<Rightarrow> 'a world \<Rightarrow> 'a world" where
  "appended this ds w =
     w\<lparr>m_connected_slots := (m_connected_slots w)(this := m_connected_slots w this @ ds),
       next_conn := next_conn w + length ds\<rparr>"

section \<open>Emission\<close>

lemma fold_connection_emit:
  "fold (\<lambda>slot. connection_emit slot a) cs w =
     w\<lparr>invoked := invoked w @ map (\<lambda>c. (m_pobject c, m_pmemfun c, a)) cs\<rparr>"
  by (induction cs arbitrary: w) (simp_all add: connection_emit_def)

lemma emit_eq:
  "emit this a w =
     w\<lparr>invoked := invoked w @ map (\<lambda>c. (m_pobject c, m_pmemfun c, a)) (m_connected_slots w this)\<rparr>"
  by (simp add: emit_def fold_connection_emit)

lemma slots_connect:
  "m_connected_slots (connect this r h w) =
     (m_connected_slots w)
       (this := m_connected_slots w this @ [\<lparr>conn_addr = next_conn w, m_pobject = r, m_pmemfun = h\<rparr>])"
  by (simp add: connect_def new_connection_def push_back_def signal_connect_def)

lemma invoked_connect: "invoked (connect this r h w) = invoked w"
  by (simp add: connect_def new_connection_def push_back_def signal_connect_def)

lemma next_conn_connect: "next_conn (connect this r h w) = Suc (next_conn w)"
  by (simp add: connect_def new_connection_def push_back_def signal_connect_def)

lemma senders_connect:
  "m_senders (connect this r h w) = (m_senders w)(r := set_insert this (m_senders w r))"
  by (simp add: connect_def new_connection_def push_back_def signal_connect_def)

text \<open>
  C9. Calling a signal through \<^verbatim>\<open>operator()\<close> is the same as calling \<^verbatim>\<open>emit\<close>: from every
  store and for every argument list the two produce the same store, and so the same
  handler invocations.
\<close>

theorem call_operator_is_emit: "call_operator this args w = emit this args w"
  by (simp add: call_operator_def)

section \<open>\<^verbatim>\<open>emit\<close>: one call per connection, in list order\<close>

text \<open>
  C7. \<^verbatim>\<open>emit\<close> adds to the record of invocations one entry per connection of the list,
  in list order, each with the arguments given, and changes nothing else. So on a
  signal that holds nothing but one connection the handler is invoked once; two
  connections are invoked in the order of their \<^verbatim>\<open>connect\<close>; the same receiver and handler
  connected twice is invoked twice; and a signal without connections invokes nothing and
  leaves the store as it is.
\<close>

theorem emit_invokes_each_connection_in_order:
  "invoked (emit this a w) =
     invoked w @ map (\<lambda>c. (m_pobject c, m_pmemfun c, a)) (m_connected_slots w this)
   \<and> m_connected_slots (emit this a w) = m_connected_slots w
   \<and> m_senders (emit this a w) = m_senders w
   \<and> map (\<lambda>c. (m_pobject c, m_pmemfun c)) (m_connected_slots (connect this r h w) this) =
       map (\<lambda>c. (m_pobject c, m_pmemfun c)) (m_connected_slots w this) @ [(r, h)]
   \<and> invoked (emit this a (connect this r h (signal_ctor this w))) = invoked w @ [(r, h, a)]
   \<and> invoked (emit this a (connect this r2 h2 (connect this r1 h1 (signal_ctor this w)))) =
       invoked w @ [(r1, h1, a), (r2, h2, a)]
   \<and> invoked (emit this a (connect this r h (connect this r h (signal_ctor this w)))) =
       invoked w @ [(r, h, a), (r, h, a)]
   \<and> emit this a (signal_ctor this w) = signal_ctor this w"
  by (simp add: emit_eq slots_connect invoked_connect signal_ctor_def)

section \<open>\<^verbatim>\<open>slot_duplicate\<close>: the walk over the growing list\<close>

lemma appended_Nil: "appended this [] w = w"
  by (simp add: appended_def)

lemma appended_Cons:
  "appended this ds (push_back this d (w\<lparr>next_conn := Suc (next_conn w)\<rparr>)) =
   appended this (d # ds) w"
  by (simp add: appended_def push_back_def)

lemma length_duplicates:
  "length (duplicates oldtarget newtarget n cs) =
   length (filter (\<lambda>c. getdest c = oldtarget) cs)"
  by (induction cs arbitrary: n) simp_all

lemma memfun_duplicates:
  "map m_pmemfun (duplicates oldtarget newtarget n cs) =
   map m_pmemfun (filter (\<lambda>c. getdest c = oldtarget) cs)"
  by (induction cs arbitrary: n) simp_all

lemma getdest_duplicates:
  "map getdest (duplicates oldtarget newtarget n cs) =
   replicate (length (filter (\<lambda>c. getdest c = oldtarget) cs)) newtarget"
  by (induction cs arbitrary: n) (simp_all add: getdest_def)

lemma in_duplicates_getdest:
  "d \<in> set (duplicates oldtarget newtarget n cs) \<Longrightarrow> getdest d = newtarget"
  by (induction cs arbitrary: n) (auto simp: getdest_def split: if_splits)

text \<open>
  Past the connections that were there at the start the walk meets only connections
  that do not match, and runs to the end of the list without appending.
\<close>

lemma slot_duplicate_loop_skip:
  assumes "m_connected_slots w this = pre @ app"
    and "\<forall>a \<in> set app. getdest a \<noteq> oldtarget"
  shows "slot_duplicate_loop this oldtarget newtarget (length pre) w = Some w"
  using assms
proof (induction app arbitrary: pre)
  case Nil
  then show ?case by (subst slot_duplicate_loop.simps) simp
next
  case (Cons a app)
  have "slot_duplicate_loop this oldtarget newtarget (length pre) w =
        slot_duplicate_loop this oldtarget newtarget (length (pre @ [a])) w"
    using Cons.prems by (subst slot_duplicate_loop.simps) simp
  also have "\<dots> = Some w"
    using Cons.prems by (intro Cons.IH) simp_all
  finally show ?case .
qed

text \<open>
  The walk at position \<open>length pre\<close>, with \<open>rest\<close> of the original list still ahead and the
  duplicates \<open>app\<close> appended so far.
\<close>

lemma slot_duplicate_loop_run:
  assumes "m_connected_slots w this = pre @ rest @ app"
    and "\<forall>a \<in> set app. getdest a \<noteq> oldtarget"
    and "newtarget \<noteq> oldtarget"
  shows "slot_duplicate_loop this oldtarget newtarget (length pre) w =
         Some (appended this (duplicates oldtarget newtarget (next_conn w) rest) w)"
  using assms
proof (induction rest arbitrary: pre app w)
  case Nil
  then show ?case
    using slot_duplicate_loop_skip [of w this pre app oldtarget newtarget]
    by (simp add: appended_Nil)
next
  case (Cons c rest)
  have at: "m_connected_slots w this ! length pre = c"
    "length pre < length (m_connected_slots w this)"
    using Cons.prems(1) by simp_all
  show ?case
  proof (cases "getdest c = oldtarget")
    case False
    have "slot_duplicate_loop this oldtarget newtarget (length pre) w =
          slot_duplicate_loop this oldtarget newtarget (length (pre @ [c])) w"
      using at False by (subst slot_duplicate_loop.simps) simp
    also have "\<dots> = Some (appended this (duplicates oldtarget newtarget (next_conn w) rest) w)"
      using Cons.IH [where w = w and pre = "pre @ [c]" and app = app] Cons.prems by simp
    finally show ?thesis using False by simp
  next
    case True
    define d where
      "d = \<lparr>conn_addr = next_conn w, m_pobject = newtarget, m_pmemfun = m_pmemfun c\<rparr>"
    define w1 where "w1 = push_back this d (w\<lparr>next_conn := Suc (next_conn w)\<rparr>)"
    have w1: "m_connected_slots w1 this = (pre @ [c]) @ rest @ (app @ [d])"
      "next_conn w1 = Suc (next_conn w)"
      using Cons.prems(1) by (simp_all add: w1_def push_back_def)
    have "slot_duplicate_loop this oldtarget newtarget (length pre) w =
          slot_duplicate_loop this oldtarget newtarget (length (pre @ [c])) w1"
      using at True
      by (subst slot_duplicate_loop.simps)
         (simp add: duplicate_def new_connection_def d_def w1_def)
    also have "\<dots> = Some (appended this (duplicates oldtarget newtarget (next_conn w1) rest) w1)"
      using Cons.IH [where w = w1 and pre = "pre @ [c]" and app = "app @ [d]"] Cons.prems w1(1)
      by (simp add: d_def getdest_def)
    also have "\<dots> =
        Some (appended this (d # duplicates oldtarget newtarget (Suc (next_conn w)) rest) w)"
      by (simp add: w1(2)) (simp add: w1_def appended_Cons)
    finally show ?thesis using True by (simp add: d_def)
  qed
qed

lemma slot_duplicate_eq:
  assumes "newtarget \<noteq> oldtarget"
  shows "slot_duplicate this oldtarget newtarget w =
         Some (appended this
                 (duplicates oldtarget newtarget (next_conn w) (m_connected_slots w this)) w)"
  using slot_duplicate_loop_run
          [of w this "[]" "m_connected_slots w this" "[]" oldtarget newtarget] assms
  by (simp add: slot_duplicate_def)

text \<open>
  C10. When \<^verbatim>\<open>newtarget\<close> differs from \<^verbatim>\<open>oldtarget\<close>, \<^verbatim>\<open>slot_duplicate\<close> returns, and the
  list it leaves is the list at the start of the call followed by one duplicate for each
  connection to \<^verbatim>\<open>oldtarget\<close> that was in it at the start: as many duplicates as there
  were such connections, with their member functions in the same order, all with the
  receiver \<^verbatim>\<open>newtarget\<close>, at freshly allocated addresses. The duplicates the walk reaches
  are not duplicated again.
\<close>

theorem slot_duplicate_terminates:
  assumes "newtarget \<noteq> oldtarget"
  shows "slot_duplicate this oldtarget newtarget w =
           Some (w\<lparr>m_connected_slots := (m_connected_slots w)
                      (this := m_connected_slots w this
                         @ duplicates oldtarget newtarget (next_conn w) (m_connected_slots w this)),
                   next_conn := next_conn w
                      + length (filter (\<lambda>c. getdest c = oldtarget) (m_connected_slots w this))\<rparr>)
         \<and> length (duplicates oldtarget newtarget (next_conn w) (m_connected_slots w this)) =
             length (filter (\<lambda>c. getdest c = oldtarget) (m_connected_slots w this))
         \<and> map m_pmemfun (duplicates oldtarget newtarget (next_conn w) (m_connected_slots w this)) =
             map m_pmemfun (filter (\<lambda>c. getdest c = oldtarget) (m_connected_slots w this))
         \<and> (\<forall>d \<in> set (duplicates oldtarget newtarget (next_conn w) (m_connected_slots w this)).
               getdest d = newtarget)"
proof -
  have "\<forall>d \<in> set (duplicates oldtarget newtarget (next_conn w) (m_connected_slots w this)).
               getdest d = newtarget"
    by (blast dest: in_duplicates_getdest)
  then show ?thesis
    using slot_duplicate_eq [OF assms, of this w]
    by (simp add: appended_def length_duplicates memfun_duplicates)
qed

theorem slot_duplicate_terminates_witness:
  "map_option (\<lambda>w. (map (\<lambda>c. (conn_addr c, m_pobject c, m_pmemfun c)) (m_connected_slots w 1),
                     next_conn w))
     (slot_duplicate 1 10 20
        (connect 1 10 8 (connect 1 11 9 (connect 1 10 7 (no_objects :: unit world))))) =
   Some ([(0, 10, 7), (1, 11, 9), (2, 10, 8), (3, 20, 7), (4, 20, 8)], 5)"
  using slot_duplicate_terminates
          [of 20 10 1 "connect 1 10 8 (connect 1 11 9 (connect 1 10 7 (no_objects :: unit world)))"]
  by (simp add: slots_connect next_conn_connect no_objects_def getdest_def)

section \<open>Copying a signal\<close>

lemmas scenario =
  connect_def new_connection_def push_back_def signal_connect_def signal_disconnect_def
  set_insert_def set_erase_def no_objects_def getdest_def

text \<open>
  The list that the copy constructor walks is the new object's own, which is empty: the
  loop body never runs, whatever the source signal holds.
\<close>

lemma signal_copy_eq: "signal_copy s this w = Some (signal_ctor this w)"
  unfolding signal_copy_def
  by (subst signal_copy_loop.simps) (simp add: signal_ctor_def)

text \<open>
  C1, on the code. Signal 1 holds one connection, to receiver 10 with handler 7, and
  signal 2 is copy-constructed from it. The constructor returns; signal 2 holds no
  connection, the senders of receiver 10 are still signal 1 alone, \<^verbatim>\<open>emit\<close> on signal 2
  invokes nothing, and \<^verbatim>\<open>emit\<close> on signal 1 invokes handler 7 on receiver 10.
\<close>

theorem signal_copy_holds_no_connection:
  "map_option
     (\<lambda>w. (m_connected_slots w 2, m_senders w 10, invoked (emit 2 a w), invoked (emit 1 a w)))
     (signal_copy 1 2 (connect 1 10 7 no_objects)) =
   Some ([], [1], [], [(10, 7, a)])"
  by (simp add: signal_copy_eq signal_ctor_def emit_eq scenario)

section \<open>Consistency of senders and connections\<close>

lemma set_set_insert: "set (set_insert x xs) = insert x (set xs)"
  by (auto simp: set_insert_def set_insort_key)

lemma set_insert_ascending:
  "sorted xs \<Longrightarrow> distinct xs \<Longrightarrow> sorted (set_insert x xs) \<and> distinct (set_insert x xs)"
  by (simp add: set_insert_def sorted_insort distinct_insort)

lemma set_erase_ascending:
  "sorted xs \<Longrightarrow> distinct xs \<Longrightarrow> sorted (set_erase x xs) \<and> distinct (set_erase x xs)"
  by (simp add: set_erase_def distinct_removeAll sorted_wrt_filter removeAll_filter_not_eq)

lemma consistent_no_objects: "consistent no_objects"
  by (simp add: consistent_def no_objects_def)

lemma consistent_connect:
  assumes "consistent w"
  shows "consistent (connect this r h w)"
  unfolding consistent_def
proof (intro allI)
  fix r' s
  have old: "(s \<in> set (m_senders w r')) = (\<exists>c \<in> set (m_connected_slots w s). getdest c = r')"
    using assms unfolding consistent_def by blast
  show "(s \<in> set (m_senders (connect this r h w) r')) =
        (\<exists>c \<in> set (m_connected_slots (connect this r h w) s). getdest c = r')"
    using old by (auto simp: slots_connect senders_connect set_set_insert getdest_def)
qed

text \<open>
  C2, on the code. Signal 1 is connected to receiver 10 twice, with handlers 7 and 8;
  the store is consistent. After \<^verbatim>\<open>disconnect\<close> of receiver 10 from signal 1 it is not:
  signal 1 still holds the connection with handler 8 to receiver 10, and receiver 10 no
  longer has signal 1 among its senders.
\<close>

theorem disconnect_breaks_consistency:
  "consistent (connect 1 10 8 (connect 1 10 7 (no_objects :: 'a world)))
   \<and> \<not> consistent (disconnect 1 10 (connect 1 10 8 (connect 1 10 7 (no_objects :: 'a world))))"
proof -
  let ?w = "disconnect 1 10 (connect 1 10 8 (connect 1 10 7 (no_objects :: 'a world)))"
  have a: "1 \<notin> set (m_senders ?w 10)"
    by (simp add: disconnect_def scenario)
  have b: "\<exists>c \<in> set (m_connected_slots ?w 1). getdest c = 10"
    by (simp add: disconnect_def scenario)
  have "\<not> consistent ?w"
    unfolding consistent_def using a b by blast
  then show ?thesis
    by (simp add: consistent_connect consistent_no_objects)
qed

section \<open>\<^verbatim>\<open>disconnect\<close>\<close>

text \<open>
  The loop stops at the first connection to \<^verbatim>\<open>pclass\<close>, if there is one.
\<close>

lemma disconnect_loop_find:
  "disconnect_loop this pclass cs w =
     (case List.find (\<lambda>c. getdest c = pclass) cs of
        None \<Rightarrow> w
      | Some slot \<Rightarrow>
          signal_disconnect pclass this
            (w\<lparr>m_connected_slots :=
                 (m_connected_slots w)(this := removeAll slot (m_connected_slots w this))\<rparr>))"
  by (induction cs) simp_all

lemma disconnect_not_connected:
  assumes "\<forall>c \<in> set (m_connected_slots w this). getdest c \<noteq> pclass"
  shows "disconnect this pclass w = w"
proof -
  have "List.find (\<lambda>c. getdest c = pclass) (m_connected_slots w this) = None"
    using assms by (simp add: find_None_iff)
  then show ?thesis by (simp add: disconnect_def disconnect_loop_find)
qed

lemma removeAll_first_match:
  assumes "List.find P cs = Some x" and "distinct cs"
  shows "removeAll x cs = takeWhile (\<lambda>c. \<not> P c) cs @ tl (dropWhile (\<lambda>c. \<not> P c) cs)"
  using assms
proof (induction cs)
  case Nil
  then show ?case by simp
next
  case (Cons c cs)
  show ?case
  proof (cases "P c")
    case True
    then have "x = c" using Cons.prems(1) by simp
    then show ?thesis using True Cons.prems(2) by simp
  next
    case False
    then have "List.find P cs = Some x" "x \<noteq> c" using Cons.prems(1)
      by (auto simp: find_Some_iff)
    then show ?thesis using False Cons by simp
  qed
qed

text \<open>
  The pointers of a list are pairwise distinct, each coming from its own \<^verbatim>\<open>new\<close>; then
  \<^verbatim>\<open>remove(slot)\<close> erases one element, and what \<^verbatim>\<open>disconnect\<close> takes out of the list is the
  first connection to the receiver and nothing else.
\<close>

lemma disconnect_removes_first_match:
  assumes "distinct (m_connected_slots w this)"
  shows "m_connected_slots (disconnect this r w) this =
           takeWhile (\<lambda>c. getdest c \<noteq> r) (m_connected_slots w this)
           @ tl (dropWhile (\<lambda>c. getdest c \<noteq> r) (m_connected_slots w this))"
proof (cases "List.find (\<lambda>c. getdest c = r) (m_connected_slots w this)")
  case None
  then have "\<forall>c \<in> set (m_connected_slots w this). getdest c \<noteq> r"
    by (simp add: find_None_iff)
  then have tw: "takeWhile (\<lambda>c. getdest c \<noteq> r) (m_connected_slots w this) =
      m_connected_slots w this"
    and dw: "dropWhile (\<lambda>c. getdest c \<noteq> r) (m_connected_slots w this) = []"
    by simp_all
  show ?thesis
    unfolding tw dw by (simp add: disconnect_def disconnect_loop_find None)
next
  case (Some slot)
  then show ?thesis
    using removeAll_first_match [OF Some assms]
    by (simp add: disconnect_def disconnect_loop_find signal_disconnect_def)
qed

text \<open>
  The receiver loses the signal from its senders whenever a connection was found,
  whether or not the signal keeps other connections to it.
\<close>

lemma senders_disconnect:
  "m_senders (disconnect this r w) r' =
     (if r' = r \<and> (\<exists>c \<in> set (m_connected_slots w this). getdest c = r)
      then set_erase this (m_senders w r) else m_senders w r')"
proof (cases "List.find (\<lambda>c. getdest c = r) (m_connected_slots w this)")
  case None
  then have "\<not> (\<exists>c \<in> set (m_connected_slots w this). getdest c = r)"
    by (simp add: find_None_iff)
  then show ?thesis
    using None by (simp add: disconnect_def disconnect_loop_find)
next
  case (Some slot)
  then have "\<exists>c \<in> set (m_connected_slots w this). getdest c = r"
    by (auto simp: find_Some_iff)
  then show ?thesis
    using Some by (simp add: disconnect_def disconnect_loop_find signal_disconnect_def)
qed

lemma filter_removeAll_other: "\<not> P x \<Longrightarrow> filter P (removeAll x xs) = filter P xs"
  by (induction xs) auto

lemma disconnect_other_receiver:
  assumes "r' \<noteq> r"
  shows "filter (\<lambda>c. getdest c = r') (m_connected_slots (disconnect s r w) s') =
         filter (\<lambda>c. getdest c = r') (m_connected_slots w s')
       \<and> m_senders (disconnect s r w) r' = m_senders w r'"
proof (cases "List.find (\<lambda>c. getdest c = r) (m_connected_slots w s)")
  case None
  then show ?thesis by (simp add: disconnect_def disconnect_loop_find)
next
  case (Some slot)
  then have "getdest slot = r" by (auto simp: find_Some_iff)
  then have "\<not> (\<lambda>c. getdest c = r') slot" using assms by simp
  then show ?thesis
    using Some assms
    by (simp add: disconnect_def disconnect_loop_find signal_disconnect_def filter_removeAll_other)
qed

text \<open>
  C3, on the code. Signal 1 is connected to receiver 10 with handler 7 and then with
  handler 8, and \<^verbatim>\<open>disconnect\<close> of receiver 10 is called on it. The first connection is
  removed and the one with handler 8 remains in the list, but the senders of receiver 10
  are empty: the signal is unregistered although a connection to the receiver remains.
\<close>

theorem disconnect_unregisters_with_connection_left:
  "(let w = disconnect 1 10 (connect 1 10 8 (connect 1 10 7 no_objects))
    in (m_connected_slots w 1, m_senders w 10)) =
   ([\<lparr>conn_addr = 1, m_pobject = 10, m_pmemfun = 8\<rparr>], [])"
  by (simp add: disconnect_def scenario)

section \<open>\<^verbatim>\<open>slot_disconnect\<close> and the teardown of a receiver\<close>

text \<open>
  The loop of \<^verbatim>\<open>slot_disconnect\<close> gets through the list only when no connection matches,
  and then the list is as it was.
\<close>

lemma slot_disconnect_loop_eq:
  "slot_disconnect_loop pslot passed cs =
     (if \<exists>c \<in> set cs. getdest c = pslot then Inl Invalidated_iterator else Inr (passed @ cs))"
  by (induction cs arbitrary: passed) simp_all

lemma slot_disconnect_eq:
  "slot_disconnect this pslot w =
     (if \<exists>c \<in> set (m_connected_slots w this). getdest c = pslot
      then Inl Invalidated_iterator else Inr w)"
  by (simp add: slot_disconnect_def slot_disconnect_loop_eq)

text \<open>
  C4, on the code. Signal 1 holds one connection, to receiver 10, and
  \<^verbatim>\<open>slot_disconnect\<close> of receiver 10 is called on it. The connection matches, the
  iterator is erased, and the loop header then advances the erased iterator.
\<close>

theorem slot_disconnect_advances_erased_iterator:
  "slot_disconnect 1 10 (connect 1 10 7 no_objects) = Inl Invalidated_iterator"
  by (simp add: slot_disconnect_def scenario)

text \<open>
  C5, on the code. Signal 1 is connected to receiver 10 with handlers 7 and 8, and the
  receiver is destroyed. Its destructor calls \<^verbatim>\<open>slot_disconnect\<close> on signal 1, which
  advances an erased iterator at the first of the two connections.
\<close>

theorem has_slots_dtor_advances_erased_iterator:
  "has_slots_dtor 10 (connect 1 10 8 (connect 1 10 7 no_objects)) = Inl Invalidated_iterator"
  by (simp add: has_slots_dtor_def has_slots_disconnect_all_def slot_disconnect_def scenario)

section \<open>The teardown of a signal\<close>

lemma slots_fold_signal_disconnect:
  "m_connected_slots (fold (\<lambda>slot. signal_disconnect (getdest slot) this) cs w) s =
   m_connected_slots w s"
  by (induction cs arbitrary: w) (simp_all add: signal_disconnect_def)

lemma senders_fold_signal_disconnect:
  "m_senders (fold (\<lambda>slot. signal_disconnect (getdest slot) this) cs w) r =
     (if r \<in> getdest ` set cs then set_erase this (m_senders w r) else m_senders w r)"
  by (induction cs arbitrary: w) (auto simp: signal_disconnect_def set_erase_def)

lemma slots_disconnect_all:
  "m_connected_slots (disconnect_all this w) s = (if s = this then [] else m_connected_slots w s)"
  by (simp add: disconnect_all_def Let_def slots_fold_signal_disconnect)

lemma senders_disconnect_all:
  "m_senders (disconnect_all this w) r =
     (if r \<in> getdest ` set (m_connected_slots w this)
      then set_erase this (m_senders w r) else m_senders w r)"
  by (simp add: disconnect_all_def Let_def senders_fold_signal_disconnect)

text \<open>
  Destroying a signal empties its list and takes the signal out of the senders of every
  receiver it was connected to.
\<close>

lemma signal_dtor_unregisters:
  "m_connected_slots (signal_dtor this w) this = []
   \<and> (\<forall>c \<in> set (m_connected_slots w this).
         this \<notin> set (m_senders (signal_dtor this w) (getdest c)))"
  by (simp add: signal_dtor_def slots_disconnect_all senders_disconnect_all set_erase_def)

lemma disconnect_all_empty:
  assumes "m_connected_slots w this = []"
  shows "disconnect_all this w = w"
proof -
  have "(m_connected_slots w)(this := []) = m_connected_slots w"
    using assms by (simp add: fun_upd_idem)
  then show ?thesis using assms by (simp add: disconnect_all_def)
qed

lemma disconnect_all_twice: "disconnect_all this (disconnect_all this w) = disconnect_all this w"
  by (rule disconnect_all_empty) (simp add: slots_disconnect_all)

lemma has_slots_disconnect_all_twice:
  assumes "has_slots_disconnect_all r w = Inr w'"
  shows "has_slots_disconnect_all r w' = Inr w'"
proof -
  obtain w1 where w1: "w' = w1\<lparr>m_senders := (m_senders w1)(r := [])\<rparr>"
    using assms by (auto simp: has_slots_disconnect_all_def split: sum.splits)
  show ?thesis by (simp add: w1 has_slots_disconnect_all_def)
qed

text \<open>
  The first \<^verbatim>\<open>disconnect_all\<close> of a receiver returns only when none of its senders holds
  a connection to it, that is, when there is nothing to tear down.
\<close>

lemma has_slots_disconnect_all_returns:
  assumes "has_slots_disconnect_all r w = Inr w'"
  shows "\<forall>s \<in> set (m_senders w r). \<forall>c \<in> set (m_connected_slots w s). getdest c \<noteq> r"
proof -
  have loop: "has_slots_disconnect_all_loop r ss w = Inr w1 \<Longrightarrow>
      \<forall>s \<in> set ss. \<forall>c \<in> set (m_connected_slots w s). getdest c \<noteq> r" for ss w1
    by (induction ss) (auto simp: slot_disconnect_eq split: if_splits)
  obtain w1 where "has_slots_disconnect_all_loop r (m_senders w r) w = Inr w1"
    using assms by (auto simp: has_slots_disconnect_all_def split: sum.splits)
  then show ?thesis by (rule loop)
qed

text \<open>
  C8, on the code. A receiver is connected to a signal, by one \<^verbatim>\<open>connect\<close> on a store
  without other objects, and \<^verbatim>\<open>disconnect_all\<close> is called on the receiver twice in a row.
  The first call already advances an erased iterator in \<^verbatim>\<open>slot_disconnect\<close>, so no store
  is left for a second call to keep unchanged. On a signal the second \<^verbatim>\<open>disconnect_all\<close>
  does leave the store as the first left it.
\<close>

theorem has_slots_disconnect_all_twice_stops_in_first_call:
  "has_slots_disconnect_all r (connect s r h no_objects) = Inl Invalidated_iterator
   \<and> disconnect_all s (disconnect_all s w) = disconnect_all s w"
  by (simp add: has_slots_disconnect_all_def slot_disconnect_eq disconnect_all_twice scenario)

section \<open>\<^verbatim>\<open>slot_duplicate\<close> with one target for both arguments\<close>

text \<open>
  When \<^verbatim>\<open>newtarget\<close> is \<^verbatim>\<open>oldtarget\<close> and the list holds a connection to it, every duplicate
  appended matches again: a match always lies ahead of the walk, which never reaches the
  end of the list. The condition of C10 cannot be dropped.
\<close>

lemma slot_duplicate_loop_same_target:
  assumes "slot_duplicate_loop this r r i w = Some y"
  shows "\<not> (\<exists>j \<ge> i. j < length (m_connected_slots w this) \<and>
                getdest (m_connected_slots w this ! j) = r)"
proof -
  have "\<not> (r = r \<and> (\<exists>j \<ge> i. j < length (m_connected_slots w this) \<and>
                getdest (m_connected_slots w this ! j) = r))"
  proof (rule slot_duplicate_loop.raw_induct
    [where P = "\<lambda>this oldtarget newtarget i w y.
       \<not> (newtarget = oldtarget \<and>
          (\<exists>j \<ge> i. j < length (m_connected_slots w this) \<and>
                    getdest (m_connected_slots w this ! j) = oldtarget))",
     OF _ assms])
  fix loop :: "nat \<Rightarrow> nat \<Rightarrow> nat \<Rightarrow> nat \<Rightarrow> 'a world \<Rightarrow> 'a world option"
  fix this oldtarget newtarget i :: nat and w y :: "'a world"
  assume IH: "\<And>this oldtarget newtarget i w y. loop this oldtarget newtarget i w = Some y \<Longrightarrow>
      \<not> (newtarget = oldtarget \<and>
          (\<exists>j \<ge> i. j < length (m_connected_slots w this) \<and>
                    getdest (m_connected_slots w this ! j) = oldtarget))"
    and eq: "(if i < length (m_connected_slots w this)
         then if getdest (m_connected_slots w this ! i) = oldtarget
              then case duplicate (m_connected_slots w this ! i) newtarget w of
                     (c, w1) \<Rightarrow> loop this oldtarget newtarget (Suc i) (push_back this c w1)
              else loop this oldtarget newtarget (Suc i) w
         else Some w) = Some y"
  show "\<not> (newtarget = oldtarget \<and>
          (\<exists>j \<ge> i. j < length (m_connected_slots w this) \<and>
                    getdest (m_connected_slots w this ! j) = oldtarget))"
  proof
    assume bad: "newtarget = oldtarget \<and>
      (\<exists>j \<ge> i. j < length (m_connected_slots w this) \<and>
                getdest (m_connected_slots w this ! j) = oldtarget)"
    then obtain j where j: "i \<le> j" "j < length (m_connected_slots w this)"
      "getdest (m_connected_slots w this ! j) = oldtarget"
      by blast
    then have i: "i < length (m_connected_slots w this)" by simp
    show False
    proof (cases "getdest (m_connected_slots w this ! i) = oldtarget")
      case True
      define d where "d = \<lparr>conn_addr = next_conn w, m_pobject = newtarget,
        m_pmemfun = m_pmemfun (m_connected_slots w this ! i)\<rparr>"
      define w1 where "w1 = push_back this d (w\<lparr>next_conn := Suc (next_conn w)\<rparr>)"
      have run: "loop this oldtarget newtarget (Suc i) w1 = Some y"
        using eq i True by (simp add: duplicate_def new_connection_def d_def w1_def)
      have "m_connected_slots w1 this = m_connected_slots w this @ [d]"
        by (simp add: w1_def push_back_def)
      then have "Suc i \<le> length (m_connected_slots w this)
          \<and> length (m_connected_slots w this) < length (m_connected_slots w1 this)
          \<and> getdest (m_connected_slots w1 this ! length (m_connected_slots w this)) = oldtarget"
        using i bad by (simp add: d_def getdest_def)
      then show False using IH [OF run] bad by blast
    next
      case False
      then have run: "loop this oldtarget newtarget (Suc i) w = Some y"
        using eq i by simp
      have "j \<noteq> i" using False j(3) by auto
      then have "Suc i \<le> j" using j(1) by simp
      then show False using IH [OF run] bad j by blast
    qed
  qed
  qed
  then show ?thesis by simp
qed

lemma slot_duplicate_same_target_diverges:
  assumes "\<exists>c \<in> set (m_connected_slots w this). getdest c = r"
  shows "slot_duplicate this r r w = None"
proof (cases "slot_duplicate this r r w")
  case None
  then show ?thesis .
next
  case (Some y)
  from assms obtain j where "j < length (m_connected_slots w this)"
    "getdest (m_connected_slots w this ! j) = r"
    by (auto simp: in_set_conv_nth)
  then show ?thesis
    using slot_duplicate_loop_same_target [of this r 0 w y] Some
    by (auto simp: slot_duplicate_def)
qed

section \<open>Copying a receiver\<close>

lemma slots_appended:
  "m_connected_slots (appended this ds w) s =
     (if s = this then m_connected_slots w this @ ds else m_connected_slots w s)"
  by (simp add: appended_def)

lemma set_fold_set_insert: "set (fold set_insert ss xs) = set ss \<union> set xs"
  by (induction ss arbitrary: xs) (auto simp: set_set_insert)

lemma target_duplicates:
  "map (\<lambda>d. (m_pobject d, m_pmemfun d)) (duplicates oldtarget newtarget n cs) =
   map (\<lambda>c. (newtarget, m_pmemfun c)) (filter (\<lambda>c. getdest c = oldtarget) cs)"
  by (induction cs arbitrary: n) simp_all

lemma invocations_duplicates:
  "map (\<lambda>c. (m_pobject c, m_pmemfun c, a)) (duplicates oldtarget newtarget n cs) =
   map (\<lambda>c. (newtarget, m_pmemfun c, a)) (filter (\<lambda>c. getdest c = oldtarget) cs)"
  by (induction cs arbitrary: n) simp_all

text \<open>
  The loop of the copy constructor over the senders \<open>ss\<close> of the original, none of them
  listed twice.
\<close>

lemma has_slots_copy_loop_run:
  assumes "this \<noteq> hs" and "distinct ss"
  shows "\<exists>w'. has_slots_copy_loop ss hs this w = Some w'
     \<and> invoked w' = invoked w
     \<and> m_senders w' this = fold set_insert ss (m_senders w this)
     \<and> (\<forall>r. r \<noteq> this \<longrightarrow> m_senders w' r = m_senders w r)
     \<and> (\<forall>s. s \<notin> set ss \<longrightarrow> m_connected_slots w' s = m_connected_slots w s)
     \<and> (\<forall>s \<in> set ss. \<exists>n. m_connected_slots w' s =
            m_connected_slots w s @ duplicates hs this n (m_connected_slots w s))"
  using assms(2)
proof (induction ss arbitrary: w)
  case Nil
  then show ?case by simp
next
  case (Cons s rest)
  define w1 where
    "w1 = appended s (duplicates hs this (next_conn w) (m_connected_slots w s)) w"
  define w2 where
    "w2 = w1\<lparr>m_senders := (m_senders w1)(this := set_insert s (m_senders w1 this))\<rparr>"
  have dup: "slot_duplicate s hs this w = Some w1"
    using assms(1) by (simp add: slot_duplicate_eq w1_def)
  have step: "has_slots_copy_loop (s # rest) hs this w = has_slots_copy_loop rest hs this w2"
    by (simp add: dup w2_def)
  have w2_invoked: "invoked w2 = invoked w"
    and w2_this: "m_senders w2 this = set_insert s (m_senders w this)"
    and w2_other: "\<And>r. r \<noteq> this \<Longrightarrow> m_senders w2 r = m_senders w r"
    and w2_slots: "\<And>s'. m_connected_slots w2 s' =
        (if s' = s then m_connected_slots w s @ duplicates hs this (next_conn w) (m_connected_slots w s)
         else m_connected_slots w s')"
    by (simp_all add: w2_def w1_def appended_def)
  from Cons.prems have "distinct rest" and fresh: "s \<notin> set rest" by simp_all
  from Cons.IH [OF \<open>distinct rest\<close>, of w2] obtain w' where
    run: "has_slots_copy_loop rest hs this w2 = Some w'"
    and inv: "invoked w' = invoked w2"
    and mine: "m_senders w' this = fold set_insert rest (m_senders w2 this)"
    and other: "\<forall>r. r \<noteq> this \<longrightarrow> m_senders w' r = m_senders w2 r"
    and untouched: "\<forall>s'. s' \<notin> set rest \<longrightarrow> m_connected_slots w' s' = m_connected_slots w2 s'"
    and touched: "\<forall>s' \<in> set rest. \<exists>n. m_connected_slots w' s' =
            m_connected_slots w2 s' @ duplicates hs this n (m_connected_slots w2 s')"
    by blast
  have "\<forall>s' \<in> set (s # rest). \<exists>n. m_connected_slots w' s' =
            m_connected_slots w s' @ duplicates hs this n (m_connected_slots w s')"
  proof
    fix s' assume "s' \<in> set (s # rest)"
    show "\<exists>n. m_connected_slots w' s' =
            m_connected_slots w s' @ duplicates hs this n (m_connected_slots w s')"
    proof (cases "s' = s")
      case True
      then show ?thesis using untouched fresh w2_slots by auto
    next
      case False
      then have "s' \<in> set rest" using \<open>s' \<in> set (s # rest)\<close> by simp
      with touched obtain n where "m_connected_slots w' s' =
          m_connected_slots w2 s' @ duplicates hs this n (m_connected_slots w2 s')"
        by blast
      then show ?thesis using False w2_slots by auto
    qed
  qed
  moreover have "\<forall>s'. s' \<notin> set (s # rest) \<longrightarrow> m_connected_slots w' s' = m_connected_slots w s'"
    using untouched w2_slots by simp
  moreover have "m_senders w' this = fold set_insert (s # rest) (m_senders w this)"
    using mine w2_this by simp
  moreover have "\<forall>r. r \<noteq> this \<longrightarrow> m_senders w' r = m_senders w r"
    using other w2_other by simp
  moreover have "invoked w' = invoked w"
    using inv w2_invoked by simp
  ultimately show ?case using step run by simp
qed

text \<open>
  C6. Let the receiver \<^verbatim>\<open>this\<close> be copy-constructed from a different receiver \<^verbatim>\<open>hs\<close>, whose
  set lists no sender twice. The constructor returns. The senders of the copy are the
  senders of \<^verbatim>\<open>hs\<close>; the senders of every other receiver, \<^verbatim>\<open>hs\<close> among them, are unchanged.
  A signal that is no sender of \<^verbatim>\<open>hs\<close> keeps its list. A sender of \<^verbatim>\<open>hs\<close> keeps its list and
  gains, at the end, one connection to the copy for each of its connections to \<^verbatim>\<open>hs\<close>,
  with the same handlers in the same order; \<^verbatim>\<open>emit\<close> on it then invokes all the handlers
  it invoked before and after them the handlers of \<^verbatim>\<open>hs\<close> on the copy. A later
  \<^verbatim>\<open>disconnect\<close> of \<^verbatim>\<open>hs\<close> from any signal removes no connection to the copy and leaves the
  senders of the copy as they are.
\<close>

theorem has_slots_copy_duplicates_connections:
  fixes w :: "'a world"
  assumes "this \<noteq> hs" and "distinct (m_senders w hs)"
  shows "\<exists>w'. has_slots_copy hs this w = Some w'
     \<and> set (m_senders w' this) = set (m_senders w hs)
     \<and> (\<forall>r. r \<noteq> this \<longrightarrow> m_senders w' r = m_senders w r)
     \<and> (\<forall>s. s \<notin> set (m_senders w hs) \<longrightarrow> m_connected_slots w' s = m_connected_slots w s)
     \<and> (\<forall>s \<in> set (m_senders w hs). \<exists>ds.
           m_connected_slots w' s = m_connected_slots w s @ ds
           \<and> map (\<lambda>d. (m_pobject d, m_pmemfun d)) ds =
               map (\<lambda>c. (this, m_pmemfun c))
                 (filter (\<lambda>c. getdest c = hs) (m_connected_slots w s)))
     \<and> (\<forall>s \<in> set (m_senders w hs). \<forall>a.
           invoked (emit s a w') =
             invoked w @ map (\<lambda>c. (m_pobject c, m_pmemfun c, a)) (m_connected_slots w s)
               @ map (\<lambda>c. (this, m_pmemfun c, a))
                   (filter (\<lambda>c. getdest c = hs) (m_connected_slots w s)))
     \<and> (\<forall>s. filter (\<lambda>c. getdest c = this) (m_connected_slots (disconnect s hs w') s) =
               filter (\<lambda>c. getdest c = this) (m_connected_slots w' s)
             \<and> m_senders (disconnect s hs w') this = m_senders w' this)"
proof -
  define w0 where "w0 = has_slots_ctor this w"
  have w0: "m_senders w0 hs = m_senders w hs" "m_senders w0 this = []"
    "\<And>r. r \<noteq> this \<Longrightarrow> m_senders w0 r = m_senders w r"
    "\<And>s. m_connected_slots w0 s = m_connected_slots w s" "invoked w0 = invoked w"
    using assms(1) by (simp_all add: w0_def has_slots_ctor_def)
  have start: "has_slots_copy hs this w = has_slots_copy_loop (m_senders w hs) hs this w0"
    by (simp add: has_slots_copy_def Let_def w0_def [symmetric] w0(1))
  from has_slots_copy_loop_run [OF assms, of w0] obtain w' where
    run: "has_slots_copy_loop (m_senders w hs) hs this w0 = Some w'"
    and inv: "invoked w' = invoked w"
    and mine: "m_senders w' this = fold set_insert (m_senders w hs) []"
    and other: "\<forall>r. r \<noteq> this \<longrightarrow> m_senders w' r = m_senders w r"
    and untouched: "\<forall>s. s \<notin> set (m_senders w hs) \<longrightarrow> m_connected_slots w' s = m_connected_slots w s"
    and touched: "\<forall>s \<in> set (m_senders w hs). \<exists>n. m_connected_slots w' s =
            m_connected_slots w s @ duplicates hs this n (m_connected_slots w s)"
    unfolding w0 using w0(3) by auto
  have senders: "set (m_senders w' this) = set (m_senders w hs)"
    by (simp add: mine set_fold_set_insert)
  have slots: "\<forall>s \<in> set (m_senders w hs). \<exists>ds.
           m_connected_slots w' s = m_connected_slots w s @ ds
           \<and> map (\<lambda>d. (m_pobject d, m_pmemfun d)) ds =
               map (\<lambda>c. (this, m_pmemfun c))
                 (filter (\<lambda>c. getdest c = hs) (m_connected_slots w s))"
    using touched target_duplicates by blast
  have emits: "\<forall>s \<in> set (m_senders w hs). \<forall>a.
           invoked (emit s a w') =
             invoked w @ map (\<lambda>c. (m_pobject c, m_pmemfun c, a)) (m_connected_slots w s)
               @ map (\<lambda>c. (this, m_pmemfun c, a))
                   (filter (\<lambda>c. getdest c = hs) (m_connected_slots w s))"
  proof (intro ballI allI)
    fix s and a :: 'a assume "s \<in> set (m_senders w hs)"
    with touched obtain n where
      "m_connected_slots w' s = m_connected_slots w s @ duplicates hs this n (m_connected_slots w s)"
      by blast
    moreover have "map (\<lambda>c. (m_pobject c, m_pmemfun c, a))
                     (duplicates hs this n (m_connected_slots w s)) =
                   map (\<lambda>c. (this, m_pmemfun c, a))
                     (filter (\<lambda>c. getdest c = hs) (m_connected_slots w s))"
      by (rule invocations_duplicates)
    ultimately show "invoked (emit s a w') =
             invoked w @ map (\<lambda>c. (m_pobject c, m_pmemfun c, a)) (m_connected_slots w s)
               @ map (\<lambda>c. (this, m_pmemfun c, a))
                   (filter (\<lambda>c. getdest c = hs) (m_connected_slots w s))"
      by (simp add: emit_eq inv)
  qed
  have later: "\<forall>s. filter (\<lambda>c. getdest c = this) (m_connected_slots (disconnect s hs w') s) =
               filter (\<lambda>c. getdest c = this) (m_connected_slots w' s)
             \<and> m_senders (disconnect s hs w') this = m_senders w' this"
    using disconnect_other_receiver [OF assms(1)] by blast
  show ?thesis
    using start run senders other untouched slots emits later by simp
qed

theorem has_slots_copy_duplicates_connections_witness:
  "\<exists>w'. has_slots_copy 10 20
           (connect 5 10 8 (connect 5 11 9 (connect 5 10 7 (no_objects :: unit world)))) = Some w'
     \<and> map (\<lambda>c. (m_pobject c, m_pmemfun c)) (m_connected_slots w' 5) =
         [(10, 7), (11, 9), (10, 8), (20, 7), (20, 8)]
     \<and> set (m_senders w' 20) = {5}
     \<and> m_senders w' 10 = [5]
     \<and> invoked (emit 5 () w') = [(10, 7, ()), (11, 9, ()), (10, 8, ()), (20, 7, ()), (20, 8, ())]"
proof -
  let ?w = "connect 5 10 8 (connect 5 11 9 (connect 5 10 7 (no_objects :: unit world)))"
  have senders: "m_senders ?w 10 = [5]"
    and slots: "m_connected_slots ?w 5 =
      [\<lparr>conn_addr = 0, m_pobject = 10, m_pmemfun = 7\<rparr>,
       \<lparr>conn_addr = 1, m_pobject = 11, m_pmemfun = 9\<rparr>,
       \<lparr>conn_addr = 2, m_pobject = 10, m_pmemfun = 8\<rparr>]"
    and inv: "invoked ?w = []"
    by (simp_all add: scenario)
  have pre: "(20::nat) \<noteq> 10" "distinct (m_senders ?w 10)"
    by (simp_all add: senders)
  from has_slots_copy_duplicates_connections [OF pre] obtain w' where
    run: "has_slots_copy 10 20 ?w = Some w'"
    and mine: "set (m_senders w' 20) = set (m_senders ?w 10)"
    and other: "\<forall>r. r \<noteq> 20 \<longrightarrow> m_senders w' r = m_senders ?w r"
    and ds: "\<forall>s \<in> set (m_senders ?w 10). \<exists>ds.
           m_connected_slots w' s = m_connected_slots ?w s @ ds
           \<and> map (\<lambda>d. (m_pobject d, m_pmemfun d)) ds =
               map (\<lambda>c. (20, m_pmemfun c))
                 (filter (\<lambda>c. getdest c = 10) (m_connected_slots ?w s))"
    and em: "\<forall>s \<in> set (m_senders ?w 10). \<forall>a.
           invoked (emit s a w') =
             invoked ?w @ map (\<lambda>c. (m_pobject c, m_pmemfun c, a)) (m_connected_slots ?w s)
               @ map (\<lambda>c. (20, m_pmemfun c, a))
                   (filter (\<lambda>c. getdest c = 10) (m_connected_slots ?w s))"
    by blast
  from ds obtain ds where
    "m_connected_slots w' 5 = m_connected_slots ?w 5 @ ds"
    "map (\<lambda>d. (m_pobject d, m_pmemfun d)) ds =
       map (\<lambda>c. (20, m_pmemfun c)) (filter (\<lambda>c. getdest c = 10) (m_connected_slots ?w 5))"
    unfolding senders by auto
  then have a: "map (\<lambda>c. (m_pobject c, m_pmemfun c)) (m_connected_slots w' 5) =
         [(10, 7), (11, 9), (10, 8), (20, 7), (20, 8)]"
    by (simp add: slots getdest_def)
  have b: "set (m_senders w' 20) = {5}" using mine by (simp add: senders)
  have c: "m_senders w' 10 = [5]" using other by (simp add: senders)
  have d: "invoked (emit 5 () w') = [(10, 7, ()), (11, 9, ()), (10, 8, ()), (20, 7, ()), (20, 8, ())]"
    using em unfolding senders by (simp add: slots inv getdest_def)
  show ?thesis by (intro exI [of _ w'] conjI run a b c d)
qed

section \<open>Operations that keep the store consistent\<close>

text \<open>
  Besides \<^verbatim>\<open>connect\<close>, these operations lead from a consistent store to a consistent one:
  \<^verbatim>\<open>emit\<close>, the teardown of a signal, the copy of a signal to an address whose list is
  empty, and the copy of a receiver to an address that has no senders.
\<close>

lemma consistent_emit: "consistent (emit this a w) = consistent w"
  by (simp add: consistent_def emit_eq)

lemma consistent_disconnect_all:
  assumes "consistent w"
  shows "consistent (disconnect_all this w)"
  unfolding consistent_def
proof (intro allI)
  fix r s
  have old: "\<And>r s. (s \<in> set (m_senders w r)) = (\<exists>c \<in> set (m_connected_slots w s). getdest c = r)"
    using assms unfolding consistent_def by blast
  show "(s \<in> set (m_senders (disconnect_all this w) r)) =
        (\<exists>c \<in> set (m_connected_slots (disconnect_all this w) s). getdest c = r)"
    using old [of s r] old [of this r]
    by (auto simp: slots_disconnect_all senders_disconnect_all set_erase_def)
qed

lemma consistent_signal_copy:
  assumes "consistent w" and "m_connected_slots w this = []"
  shows "\<exists>w'. signal_copy s this w = Some w' \<and> consistent w'"
proof -
  have "signal_ctor this w = w"
    using assms(2) by (simp add: signal_ctor_def fun_upd_idem)
  then show ?thesis using assms(1) by (simp add: signal_copy_eq)
qed


lemma ex_duplicates:
  "(\<exists>d \<in> set (duplicates oldtarget newtarget n cs). getdest d = r) =
   (r = newtarget \<and> (\<exists>c \<in> set cs. getdest c = oldtarget))"
  by (induction cs arbitrary: n) (auto simp: getdest_def)

lemma consistent_has_slots_copy:
  fixes w :: "'a world"
  assumes "consistent w" and "this \<noteq> hs" and "distinct (m_senders w hs)"
    and "m_senders w this = []"
  shows "\<exists>w'. has_slots_copy hs this w = Some w' \<and> consistent w'"
proof -
  have old: "\<And>r s. (s \<in> set (m_senders w r)) = (\<exists>c \<in> set (m_connected_slots w s). getdest c = r)"
    using assms(1) unfolding consistent_def by blast
  have w0: "has_slots_ctor this w = w"
    using assms(4) by (simp add: has_slots_ctor_def fun_upd_idem)
  from has_slots_copy_loop_run [OF assms(2,3), of w] obtain w' where
    run: "has_slots_copy_loop (m_senders w hs) hs this w = Some w'"
    and mine: "m_senders w' this = fold set_insert (m_senders w hs) (m_senders w this)"
    and other: "\<forall>r. r \<noteq> this \<longrightarrow> m_senders w' r = m_senders w r"
    and untouched: "\<forall>s. s \<notin> set (m_senders w hs) \<longrightarrow> m_connected_slots w' s = m_connected_slots w s"
    and touched: "\<forall>s \<in> set (m_senders w hs). \<exists>n. m_connected_slots w' s =
            m_connected_slots w s @ duplicates hs this n (m_connected_slots w s)"
    by blast
  have senders: "set (m_senders w' this) = set (m_senders w hs)"
    by (simp add: mine set_fold_set_insert assms(4))
  have "consistent w'"
    unfolding consistent_def
  proof (intro allI)
    fix r s
    show "(s \<in> set (m_senders w' r)) = (\<exists>c \<in> set (m_connected_slots w' s). getdest c = r)"
    proof (cases "s \<in> set (m_senders w hs)")
      case True
      with touched obtain n where
        "m_connected_slots w' s = m_connected_slots w s @ duplicates hs this n (m_connected_slots w s)"
        by blast
      then have "(\<exists>c \<in> set (m_connected_slots w' s). getdest c = r) =
                 ((\<exists>c \<in> set (m_connected_slots w s). getdest c = r) \<or>
                  (r = this \<and> (\<exists>c \<in> set (m_connected_slots w s). getdest c = hs)))"
        using ex_duplicates [of hs this n "m_connected_slots w s" r] by auto
      then show ?thesis
        using True old [of s r] old [of s this] old [of s hs] other senders assms(4)
        by (cases "r = this") auto
    next
      case False
      then have "m_connected_slots w' s = m_connected_slots w s"
        using untouched by simp
      then show ?thesis
        using False old [of s r] old [of s this] other senders assms(4)
        by (cases "r = this") auto
    qed
  qed
  then show ?thesis
    using run by (simp add: has_slots_copy_def Let_def w0)
qed

end
